theory Spec2Isabelle
  imports Main "HOL-Library.Sublist" "HOL-Library.AList"
begin

section \<open>The \<open>log_file\<close> session item (hssl/session/items/log\_file.py)\<close>

subsection \<open>Paths and the file system the setter acts on\<close>

text \<open>
  The setter calls \<open>os.path.dirname\<close>, \<open>os.makedirs(..., exist_ok=True)\<close> and
  \<open>open(path, "a")\<close>. Their behaviour is written out on a file system whose nodes are
  keyed by the path string the program passes (POSIX separator, no normalisation of
  \<open>.\<close>, \<open>..\<close> or repeated separators, no symbolic links, no permissions).
\<close>

datatype node = Dir | File string

type_synonym filesystem = "string \<rightharpoonup> node"

datatype os_error = FileNotFoundError | FileExistsError | NotADirectoryError | IsADirectoryError

definition sep :: char where
  "sep = CHR ''/''"

definition rstrip_sep :: "string \<Rightarrow> string" where
  "rstrip_sep p = rev (dropWhile (\<lambda>c. c = sep) (rev p))"

definition all_sep :: "string \<Rightarrow> bool" where
  "all_sep p = list_all (\<lambda>c. c = sep) p"

text \<open>
  \<open>posixpath.dirname\<close>: the text up to and including the last separator, with trailing
  separators stripped unless it consists of separators only.
\<close>

definition os_path_dirname :: "string \<Rightarrow> string" where
  "os_path_dirname p =
     (let head = rev (dropWhile (\<lambda>c. c \<noteq> sep) (rev p))
      in if head \<noteq> [] \<and> \<not> all_sep head then rstrip_sep head else head)"

text \<open>
  The directories \<open>os.makedirs name\<close> needs: every proper ancestor of \<open>name\<close> that is
  not the current directory or the root, then \<open>name\<close> itself.
\<close>

definition ancestors :: "string \<Rightarrow> string list" where
  "ancestors name =
     remdups (filter (\<lambda>d. d \<noteq> [])
       (map (\<lambda>i. rstrip_sep (take i name))
            (filter (\<lambda>i. name ! i = sep) [0..<length name])))"

definition chain :: "string \<Rightarrow> string list" where
  "chain name = ancestors name @ [name]"

definition is_file :: "node option \<Rightarrow> bool" where
  "is_file n = (case n of Some (File c) \<Rightarrow> True | _ \<Rightarrow> False)"

text \<open>
  \<open>os.makedirs(name, exist_ok=True)\<close>: the empty name raises \<open>FileNotFoundError\<close>;
  a regular file in the way raises; otherwise every missing directory of the chain
  is created and existing directories are left as they are.
\<close>

definition os_makedirs :: "string \<Rightarrow> filesystem \<Rightarrow> os_error + filesystem" where
  "os_makedirs name fs =
     (if name = [] then Inl FileNotFoundError
      else case find (\<lambda>q. is_file (fs q)) (chain name) of
             Some q \<Rightarrow> Inl (if q = name then FileExistsError else NotADirectoryError)
           | None \<Rightarrow> Inr (\<lambda>q. if q \<in> set (chain name) then Some Dir else fs q))"

text \<open>
  \<open>open(path, "a")\<close>: an existing regular file is opened with its content kept;
  a missing file is created empty when its directory exists; a directory, a name
  ending in the separator, the empty name or a missing directory raise.
\<close>

definition os_open_append :: "string \<Rightarrow> filesystem \<Rightarrow> os_error + filesystem" where
  "os_open_append path fs =
     (if path = [] then Inl FileNotFoundError
      else if last path = sep then Inl IsADirectoryError
      else case fs path of
             Some Dir \<Rightarrow> Inl IsADirectoryError
           | Some (File c) \<Rightarrow> Inr fs
           | None \<Rightarrow>
               (let d = os_path_dirname path
                in if d = [] \<or> all_sep d \<or> fs d = Some Dir then Inr (fs(path \<mapsto> File []))
                   else if fs d = None then Inl FileNotFoundError
                   else Inl NotADirectoryError))"

subsection \<open>Streams, handlers and the module state\<close>

text \<open>
  A file object and a \<open>StreamHandler\<close> are identified by the number they got when they
  were created. The formatter the setter installs is \<open>Formatter(fancy_formatting=False)\<close>.
\<close>

record stream =
  sid :: nat
  spath :: string
  smode :: string

record handler =
  hid :: nat
  hstream :: stream
  fancy_formatting :: bool

text \<open>
  Python values as the program handles them: \<open>None\<close>, the \<open>Unset\<close> sentinel,
  booleans, integers, strings, functions (by name) and dictionaries.
\<close>

datatype py_val =
    VNone
  | VUnset
  | VBool bool
  | VInt int
  | VStr string
  | VCallable string
  | VDict "(string \<times> py_val) list"


datatype level = DEBUG | WARNING

text \<open>The effects of the process in the order they happen.\<close>

datatype event =
    RemoveHandler handler
  | CloseStream stream
  | Log level string "py_val list"
  | MakeDirs string
  | OpenStream stream
  | AddHandler handler

text \<open>
  The module globals \<open>_LOG_HANDLER\<close> and \<open>_FILE_STREAM\<close>, the handlers of \<open>LOGGER\<close>,
  the file objects that are open, the file system, and the history of effects.
\<close>

record state =
  LOG_HANDLER :: "handler option"
  FILE_STREAM :: "stream option"
  LOGGER_handlers :: "handler list"
  open_files :: "stream list"
  next_id :: nat
  files :: filesystem
  history :: "event list"

text \<open>\<open>Logger.removeHandler\<close> and \<open>Logger.addHandler\<close> of the standard library.\<close>

definition removeHandler :: "handler \<Rightarrow> handler list \<Rightarrow> handler list" where
  "removeHandler h hs = (if h \<in> set hs then remove1 h hs else hs)"

definition addHandler :: "handler \<Rightarrow> handler list \<Rightarrow> handler list" where
  "addHandler h hs = (if h \<in> set hs then hs else hs @ [h])"

text \<open>Lines 15 to 17: the handler installed by the previous call is removed.\<close>

definition drop_handler :: "state \<Rightarrow> state" where
  "drop_handler s =
     (case LOG_HANDLER s of
        None \<Rightarrow> s
      | Some h \<Rightarrow> s\<lparr>LOGGER_handlers := removeHandler h (LOGGER_handlers s),
                    LOG_HANDLER := None,
                    history := history s @ [RemoveHandler h]\<rparr>)"

text \<open>Lines 18 to 20: the stream opened by the previous call is closed.\<close>

definition close_stream :: "state \<Rightarrow> state" where
  "close_stream s =
     (case FILE_STREAM s of
        None \<Rightarrow> s
      | Some f \<Rightarrow> s\<lparr>open_files := remove1 f (open_files s),
                    FILE_STREAM := None,
                    history := history s @ [CloseStream f]\<rparr>)"

text \<open>
  Lines 22 to 27, for a string: the debug message, the directory, the stream,
  the handler. An error of the operating system leaves the function at once.
\<close>

definition open_log :: "string \<Rightarrow> state \<Rightarrow> os_error option \<times> state" where
  "open_log path s =
     (let s1 = s\<lparr>history := history s @ [Log DEBUG ''opening log file stream: %s'' [VStr path]]\<rparr>
      in case os_makedirs (os_path_dirname path) (files s1) of
           Inl e \<Rightarrow> (Some e, s1)
         | Inr fs1 \<Rightarrow>
             (let s2 = s1\<lparr>files := fs1,
                        history := history s1 @ [MakeDirs (os_path_dirname path)]\<rparr>
              in case os_open_append path (files s2) of
                   Inl e \<Rightarrow> (Some e, s2)
                 | Inr fs2 \<Rightarrow>
                     (let f = \<lparr>sid = next_id s2, spath = path, smode = ''a''\<rparr>;
                          s3 = s2\<lparr>files := fs2,
                                  open_files := f # open_files s2,
                                  FILE_STREAM := Some f,
                                  next_id := Suc (next_id s2),
                                  history := history s2 @ [OpenStream f]\<rparr>;
                          h = \<lparr>hid = next_id s3, hstream = f, fancy_formatting = False\<rparr>;
                          s4 = s3\<lparr>LOG_HANDLER := Some h, next_id := Suc (next_id s3)\<rparr>
                      in (None, s4\<lparr>LOGGER_handlers := addHandler h (LOGGER_handlers s4),
                                   history := history s4 @ [AddHandler h]\<rparr>))))"

text \<open>
  \<open>_setter\<close>, for any argument (the annotation allows a string, \<open>None\<close> and
  \<open>Unset\<close>). The result is the exception that left the function, if any, and the
  state the call leaves behind.
\<close>

definition setter :: "py_val \<Rightarrow> state \<Rightarrow> os_error option \<times> state" where
  "setter path s =
     (let s' = close_stream (drop_handler s)
      in case path of
           VStr p \<Rightarrow> open_log p s'
         | _ \<Rightarrow> (None, s'))"

text \<open>
  The state when the module is loaded: both globals are \<open>None\<close>; \<open>LOGGER\<close> has the
  handlers \<open>hs\<close> other modules gave it.
\<close>

definition initial_state :: "handler list \<Rightarrow> filesystem \<Rightarrow> state" where
  "initial_state hs fs =
     \<lparr>LOG_HANDLER = None, FILE_STREAM = None, LOGGER_handlers = hs, open_files = [],
      next_id = Suc (foldr max (map hid hs) 0), files = fs, history = []\<rparr>"

text \<open>A sequence of calls; a call that raised leaves its state to the next one.\<close>

fun setter_calls :: "py_val list \<Rightarrow> state \<Rightarrow> state" where
  "setter_calls [] s = s"
| "setter_calls (v # vs) s = setter_calls vs (snd (setter v s))"

subsection \<open>What the history and the state show\<close>

text \<open>The streams that are open after a history of effects.\<close>

fun apply_event :: "event \<Rightarrow> stream list \<Rightarrow> stream list" where
  "apply_event (OpenStream f) cur = f # cur"
| "apply_event (CloseStream f) cur = remove1 f cur"
| "apply_event e cur = cur"

definition opened_after :: "event list \<Rightarrow> stream list" where
  "opened_after es = foldl (\<lambda>cur e. apply_event e cur) [] es"

fun is_release :: "event \<Rightarrow> bool" where
  "is_release (RemoveHandler h) = True"
| "is_release (CloseStream f) = True"
| "is_release e = False"

fun opt_list :: "'a option \<Rightarrow> 'a list" where
  "opt_list None = []"
| "opt_list (Some x) = [x]"


text \<open>Auxiliary notions of the proofs.\<close>

definition released :: "state \<Rightarrow> state" where
  "released s = close_stream (drop_handler s)"

definition new_stream :: "string \<Rightarrow> state \<Rightarrow> stream" where
  "new_stream p t = \<lparr>sid = next_id t, spath = p, smode = ''a''\<rparr>"

definition new_handler :: "string \<Rightarrow> state \<Rightarrow> handler" where
  "new_handler p t = \<lparr>hid = Suc (next_id t), hstream = new_stream p t, fancy_formatting = False\<rparr>"

definition consistent :: "handler list \<Rightarrow> state \<Rightarrow> bool" where
  "consistent hs s \<longleftrightarrow>
     LOGGER_handlers s = hs @ opt_list (LOG_HANDLER s) \<and>
     open_files s = opt_list (FILE_STREAM s) \<and>
     (\<forall>h\<in>set hs. hid h < next_id s) \<and>
     (\<forall>h. LOG_HANDLER s = Some h \<longrightarrow> h \<notin> set hs) \<and>
     opened_after (history s) = open_files s"

fun bounded :: "event list \<Rightarrow> stream list \<Rightarrow> bool" where
  "bounded [] cur = True"
| "bounded (e # es) cur = (length (apply_event e cur) \<le> 1 \<and> bounded es (apply_event e cur))"


section \<open>Sessions (hssl/session, as the specification describes it)\<close>

text \<open>The exceptions of the program.\<close>

datatype exn =
    OSError os_error
  | UnknownItemError string
  | MalformedSessionError
  | OutOfOrderError
  | KeyError string
  | TypeError
  | Failure string

text \<open>
  Modelled from the spec: the class \<open>SessionItem\<close> (hssl/session is not among the
  sources). An item declares a default and an optional setter; the setter acts on
  the state \<open>'w\<close> of the process and may raise.
\<close>

record 'w session_item =
  item_default :: py_val
  item_setter :: "(py_val \<Rightarrow> 'w \<Rightarrow> exn option \<times> 'w) option"

text \<open>The registry keeps the items in the order of their registration.\<close>

type_synonym 'w registry = "(string \<times> 'w session_item) list"

text \<open>
  Modelled from the spec: the class \<open>Session\<close>, a mapping from item names to the
  values the session pins, in the order of a Python dictionary.
\<close>

record session =
  overrides :: "(string \<times> py_val) list"

text \<open>
  Modelled from the spec: the constructor of \<open>Session\<close>, which fails with
  \<open>UnknownItemError\<close> on the first key that is not registered.
\<close>

definition Session :: "'w registry \<Rightarrow> (string \<times> py_val) list \<Rightarrow> exn + session" where
  "Session reg kwargs =
     (case find (\<lambda>kv. map_of reg (fst kv) = None) kwargs of
        Some kv \<Rightarrow> Inl (UnknownItemError (fst kv))
      | None \<Rightarrow> Inr \<lparr>overrides = kwargs\<rparr>)"


text \<open>
  Modelled from the spec: the effective value of an item, scanning the stack from the
  most recently activated session (the head of the list) downwards and falling back
  to the registered default.
\<close>

fun first_override :: "session list \<Rightarrow> string \<Rightarrow> py_val option" where
  "first_override [] name = None"
| "first_override (s # ss) name =
     (case map_of (overrides s) name of Some v \<Rightarrow> Some v | None \<Rightarrow> first_override ss name)"

definition effective :: "'w registry \<Rightarrow> session list \<Rightarrow> string \<Rightarrow> exn + py_val" where
  "effective reg stack name =
     (case map_of reg name of
        None \<Rightarrow> Inl (UnknownItemError name)
      | Some it \<Rightarrow>
          Inr (case first_override stack name of Some v \<Rightarrow> v | None \<Rightarrow> item_default it))"

text \<open>
  Modelled from the spec: one pass over the items in registration order, calling the
  setter of every item whose effective value differs between the stack before and
  the stack after; the first setter that raises ends the pass.
\<close>

fun fire :: "'w registry \<Rightarrow> session list \<Rightarrow> session list \<Rightarrow> 'w \<Rightarrow> exn option \<times> 'w" where
  "fire [] before after w = (None, w)"
| "fire ((name, it) # items) before after w =
     (let old = (case first_override before name of Some v \<Rightarrow> v | None \<Rightarrow> item_default it);
          new = (case first_override after name of Some v \<Rightarrow> v | None \<Rightarrow> item_default it)
      in if old = new then fire items before after w
         else case item_setter it of
                None \<Rightarrow> fire items before after w
              | Some f \<Rightarrow>
                  (case f new w of
                     (Some e, w') \<Rightarrow> (Some e, w')
                   | (None, w') \<Rightarrow> fire items before after w'))"

section \<open>The command line (hssl/\_\_main\_\_.py)\<close>

text \<open>
  The state of the process: the module global \<open>_DEFAULT_SESSION\<close>, the stack of the
  active sessions (most recent first), the state the setters act on, and the
  messages passed to \<open>log\<close>.
\<close>

record 'w main_state =
  DEFAULT_SESSION :: session
  SESSION_STACK :: "session list"
  world :: 'w
  messages :: "(level \<times> string \<times> py_val list) list"

text \<open>
  Modelled from the spec: entering a session. The setters run before the stack is
  changed; when one raises, the stack is left as it was.
\<close>

definition Session_enter ::
  "'w registry \<Rightarrow> session \<Rightarrow> 'w main_state \<Rightarrow> exn option \<times> 'w main_state" where
  "Session_enter reg sess g =
     (case fire reg (SESSION_STACK g) (sess # SESSION_STACK g) (world g) of
        (Some e, w') \<Rightarrow> (Some e, g\<lparr>world := w'\<rparr>)
      | (None, w') \<Rightarrow> (None, g\<lparr>SESSION_STACK := sess # SESSION_STACK g, world := w'\<rparr>))"


text \<open>
  \<open>contextlib.ExitStack\<close>. \<open>enter_context\<close> enters a context manager and registers its
  exit; when entering raises, nothing is registered and the exception leaves the
  loop. The registered exits are kept most recent first.
\<close>

fun enter_contexts ::
  "('c \<Rightarrow> 'g \<Rightarrow> exn option \<times> 'g) \<Rightarrow> 'c list \<Rightarrow> 'c list \<Rightarrow> 'g \<Rightarrow> exn option \<times> 'c list \<times> 'g" where
  "enter_contexts enter [] registered g = (None, registered, g)"
| "enter_contexts enter (c # cs) registered g =
     (case enter c g of
        (Some e, g') \<Rightarrow> (Some e, registered, g')
      | (None, g') \<Rightarrow> enter_contexts enter cs (c # registered) g')"



text \<open>
  The functions \<open>run\<close> calls that are not among the sources, and the constants
  \<open>__package__\<close> and \<open>__version__\<close>. \<open>training\<close> stands for lines 185 to 230, from the
  writing of the merged configuration to the training run.
\<close>

record ('f, 'w) collaborators =
  load_session :: "'f \<Rightarrow> exn + session"
  first_unique_filename :: "string \<Rightarrow> string"
  tomlkit_loads :: "'f \<Rightarrow> exn + (string \<times> py_val) list"
  merge_config :: "(string \<times> py_val) list \<Rightarrow> exn + (string \<times> py_val) list"
  training :: "(string \<times> py_val) list \<Rightarrow> 'w main_state \<Rightarrow> exn option \<times> 'w main_state"
  package :: string
  version :: string

text \<open>\<open>posixpath.join\<close> of two components.\<close>

definition os_path_join :: "string \<Rightarrow> string \<Rightarrow> string" where
  "os_path_join a b =
     (if b \<noteq> [] \<and> hd b = sep then b
      else if a = [] \<or> last a = sep then a @ b
      else a @ [sep] @ b)"


text \<open>
  \<open>run\<close>, lines 157 to 165: the sessions to activate, the loaded one first when a
  session file is given.
\<close>

definition session_stack ::
  "('f, 'w) collaborators \<Rightarrow> 'w registry \<Rightarrow> string \<Rightarrow> 'f option \<Rightarrow> exn + session list" where
  "session_stack env reg save_path session =
     (case (case session of
              None \<Rightarrow> Inr []
            | Some f \<Rightarrow> (case load_session env f of Inl e \<Rightarrow> Inl e | Inr l \<Rightarrow> Inr [l])) of
        Inl e \<Rightarrow> Inl e
      | Inr loaded \<Rightarrow>
          (case Session reg
                  [(''save_path'', VStr save_path),
                   (''log_file'',
                    VStr (first_unique_filename env (os_path_join save_path ''log'')))] of
             Inl e \<Rightarrow> Inl e
           | Inr fresh \<Rightarrow> Inr (loaded @ [fresh])))"

text \<open>
  \<open>run\<close>, lines 174 to 183: the version recorded in the configuration is compared with
  the version of the package.
\<close>

definition check_version ::
  "('f, 'w) collaborators \<Rightarrow> (string \<times> py_val) list \<Rightarrow> 'w main_state \<Rightarrow>
   exn + (string \<times> py_val) list \<times> 'w main_state" where
  "check_version env config g =
     (case map_of config ''xfuse'' of
        None \<Rightarrow> Inl (KeyError ''xfuse'')
      | Some (VDict xfuse) \<Rightarrow>
          (case map_of xfuse ''version'' of
             None \<Rightarrow> Inl (KeyError ''version'')
           | Some v \<Rightarrow>
               if v \<noteq> VStr (version env)
               then Inr (AList.update ''xfuse''
                           (VDict (AList.update ''version'' (VStr (version env)) xfuse)) config,
                         g\<lparr>messages := messages g @
                             [(WARNING,
                               ''Config was created using %s version %s but this is version %s'',
                               [VStr (package env), v, VStr (version env)])]\<rparr>)
               else Inr (config, g))
      | Some other \<Rightarrow> Inl TypeError)"

text \<open>\<open>run\<close>, lines 171 to 230: the body of the \<open>with\<close> block.\<close>

definition run_body ::
  "('f, 'w) collaborators \<Rightarrow> 'f \<Rightarrow> 'w main_state \<Rightarrow> exn option \<times> 'w main_state" where
  "run_body env project_file g =
     (case tomlkit_loads env project_file of
        Inl e \<Rightarrow> (Some e, g)
      | Inr parsed \<Rightarrow>
          (case merge_config env parsed of
             Inl e \<Rightarrow> (Some e, g)
           | Inr config \<Rightarrow>
               (case check_version env config g of
                  Inl e \<Rightarrow> (Some e, g)
                | Inr (config', g') \<Rightarrow> training env config' g')))"


text \<open>
  The item registered at line 30 of log\_file.py: the default is \<open>None\<close> and the setter
  is \<open>_setter\<close>.
\<close>

definition log_file_item :: "state session_item" where
  "log_file_item =
     \<lparr>item_default = VNone,
      item_setter = Some (\<lambda>v w. case setter v w of (r, w') \<Rightarrow> (map_option OSError r, w'))\<rparr>"

section \<open>Saving and loading sessions\<close>

text \<open>
  Modelled from the spec: the persistence codec (hssl/utility/session is not among the
  sources). A document maps item names to encoded values; which values can be
  encoded, and how, is left to \<open>encode\<close> and \<open>decode\<close>.
\<close>

record 'd codec =
  encode :: "py_val \<Rightarrow> 'd option"
  decode :: "'d \<Rightarrow> py_val option"





section \<open>A concrete run\<close>

text \<open>
  A registry with the items the run pins, a configuration, collaborators whose training
  run is interrupted, a state in which the default session is active, and a codec
  for strings.
\<close>

definition example_registry :: "state registry" where
  "example_registry =
     [(''save_path'', \<lparr>item_default = VNone, item_setter = None\<rparr>),
      (''log_file'', log_file_item)]"

definition example_config :: "(string \<times> py_val) list" where
  "example_config =
     [(''xfuse'', VDict [(''network_depth'', VInt 6), (''version'', VStr ''0.1'')]),
      (''slides'', VDict [])]"

definition example_env :: "(string, state) collaborators" where
  "example_env =
     \<lparr>load_session = (\<lambda>f. Inr \<lparr>overrides = [(''save_path'', VStr ''old'')]\<rparr>),
      first_unique_filename = (\<lambda>p. p),
      tomlkit_loads = (\<lambda>f. Inr example_config),
      merge_config = (\<lambda>c. Inr c),
      training = (\<lambda>c g. (Some (Failure ''interrupted''), g)),
      package = ''hssl'',
      version = ''0.2''\<rparr>"

definition example_state :: "state main_state" where
  "example_state =
     \<lparr>DEFAULT_SESSION = \<lparr>overrides = []\<rparr>,
      SESSION_STACK = [\<lparr>overrides = []\<rparr>],
      world = initial_state [] Map.empty,
      messages = []\<rparr>"

definition example_codec :: "string codec" where
  "example_codec =
     \<lparr>encode = (\<lambda>v. case v of VStr p \<Rightarrow> Some p | _ \<Rightarrow> None),
      decode = (\<lambda>d. Some (VStr d))\<rparr>"

section \<open>Properties of the \<open>log_file\<close> setter\<close>

lemma released_fields:
  "LOG_HANDLER (released s) = None"
  "FILE_STREAM (released s) = None"
  "next_id (released s) = next_id s"
  "files (released s) = files s"
  "history (released s) =
     history s @ map RemoveHandler (opt_list (LOG_HANDLER s)) @ map CloseStream (opt_list (FILE_STREAM s))"
  "LOGGER_handlers (released s) =
     (case LOG_HANDLER s of None \<Rightarrow> LOGGER_handlers s | Some h \<Rightarrow> removeHandler h (LOGGER_handlers s))"
  "open_files (released s) =
     (case FILE_STREAM s of None \<Rightarrow> open_files s | Some f \<Rightarrow> remove1 f (open_files s))"
  by (simp_all add: released_def close_stream_def drop_handler_def split: option.splits)

lemma setter_released:
  "setter v s = (case v of VStr p \<Rightarrow> open_log p (released s) | _ \<Rightarrow> (None, released s))"
  by (simp add: setter_def released_def Let_def split: py_val.splits)




lemma makedirs_result:
  assumes "os_makedirs d fs = Inr fs1"
  shows "d \<noteq> []" and "\<forall>q\<in>set (chain d). \<not> is_file (fs q)"
    and "fs1 = (\<lambda>q. if q \<in> set (chain d) then Some Dir else fs q)"
  using assms by (auto simp: os_makedirs_def find_None_iff split: if_splits option.splits)


lemma makedirs_parent:
  "os_makedirs d fs = Inr fs1 \<Longrightarrow> fs1 d = Some Dir"
  using makedirs_result(3)[of d fs fs1] by (simp add: chain_def)

lemma makedirs_keeps:
  assumes "os_makedirs d fs = Inr fs1" and "fs q = Some n"
  shows "fs1 q = Some n"
proof (cases "q \<in> set (chain d)")
  case True
  with makedirs_result(2)[OF assms(1)] assms(2) have "n = Dir"
    by (cases n) (auto simp: is_file_def)
  with True show ?thesis by (simp add: makedirs_result(3)[OF assms(1)])
next
  case False
  with assms(2) show ?thesis by (simp add: makedirs_result(3)[OF assms(1)])
qed

lemma open_result:
  assumes "os_open_append p fs = Inr fs2"
  shows "p \<noteq> []" and "last p \<noteq> sep"
    and "(\<exists>c. fs p = Some (File c) \<and> fs2 = fs) \<or> (fs p = None \<and> fs2 = fs(p \<mapsto> File []))"
  using assms
  by (auto simp: os_open_append_def Let_def split: if_splits option.splits node.splits)


lemma open_keeps:
  "os_open_append p fs = Inr fs2 \<Longrightarrow> fs q = Some n \<Longrightarrow> fs2 q = Some n"
  using open_result(3)[of p fs fs2] by auto

lemma open_content:
  "os_open_append p fs = Inr fs2 \<Longrightarrow>
     fs2 p = Some (File (case fs p of Some (File c) \<Rightarrow> c | _ \<Rightarrow> []))"
  using open_result(3)[of p fs fs2] by auto


lemma open_log_makedirs_fails:
  assumes "os_makedirs (os_path_dirname p) (files t) = Inl e"
  shows "open_log p t =
    (Some e, t\<lparr>history := history t @ [Log DEBUG ''opening log file stream: %s'' [VStr p]]\<rparr>)"
  using assms by (simp add: open_log_def)

lemma open_log_open_fails:
  assumes "os_makedirs (os_path_dirname p) (files t) = Inr fs1" and "os_open_append p fs1 = Inl e"
  shows "open_log p t =
    (Some e, t\<lparr>files := fs1, history := history t @
        [Log DEBUG ''opening log file stream: %s'' [VStr p], MakeDirs (os_path_dirname p)]\<rparr>)"
  using assms by (simp add: open_log_def)

lemma open_log_ok:
  assumes "os_makedirs (os_path_dirname p) (files t) = Inr fs1" and "os_open_append p fs1 = Inr fs2"
  shows "open_log p t =
    (None, t\<lparr>LOG_HANDLER := Some (new_handler p t),
             FILE_STREAM := Some (new_stream p t),
             LOGGER_handlers := addHandler (new_handler p t) (LOGGER_handlers t),
             open_files := new_stream p t # open_files t,
             next_id := Suc (Suc (next_id t)),
             files := fs2,
             history := history t @
               [Log DEBUG ''opening log file stream: %s'' [VStr p], MakeDirs (os_path_dirname p),
                OpenStream (new_stream p t), AddHandler (new_handler p t)]\<rparr>)"
  using assms by (simp add: open_log_def new_handler_def new_stream_def Let_def)




lemma setter_ok_cases:
  assumes "setter (VStr p) s = (None, s')"
  obtains fs1 fs2 where "os_makedirs (os_path_dirname p) (files s) = Inr fs1"
    and "os_open_append p fs1 = Inr fs2"
    and "open_log p (released s) = (None, s')"
proof -
  from assms have o: "open_log p (released s) = (None, s')" by (simp add: setter_released)
  show thesis
  proof (cases "os_makedirs (os_path_dirname p) (files (released s))")
    case (Inl e)
    from open_log_makedirs_fails[OF Inl] o show thesis by simp
  next
    case m: (Inr fs1)
    show thesis
    proof (cases "os_open_append p fs1")
      case (Inl e)
      from open_log_open_fails[OF m Inl] o show thesis by simp
    next
      case (Inr fs2)
      with m o that show thesis by (simp add: released_fields)
    qed
  qed
qed

lemma setter_ok_effect:
  assumes "setter (VStr p) s = (None, s')"
  shows "files s' (os_path_dirname p) = Some Dir \<and>
         (\<forall>q n. files s q = Some n \<longrightarrow> files s' q = Some n) \<and>
         files s' p = Some (File (case files s p of Some (File c) \<Rightarrow> c | _ \<Rightarrow> [])) \<and>
         FILE_STREAM s' = Some \<lparr>sid = next_id s, spath = p, smode = ''a''\<rparr> \<and>
         \<lparr>sid = next_id s, spath = p, smode = ''a''\<rparr> \<in> set (open_files s')"
proof -
  from assms obtain fs1 fs2 where m: "os_makedirs (os_path_dirname p) (files s) = Inr fs1"
    and o: "os_open_append p fs1 = Inr fs2" and l: "open_log p (released s) = (None, s')"
    by (rule setter_ok_cases)
  from m have m': "os_makedirs (os_path_dirname p) (files (released s)) = Inr fs1"
    by (simp add: released_fields)
  from open_log_ok[OF m' o] l have s': "files s' = fs2"
    "FILE_STREAM s' = Some (new_stream p (released s))"
    "open_files s' = new_stream p (released s) # open_files (released s)"
    by auto
  have parent: "fs2 (os_path_dirname p) = Some Dir"
    by (rule open_keeps[OF o makedirs_parent[OF m]])
  have keeps: "\<forall>q n. files s q = Some n \<longrightarrow> fs2 q = Some n"
    using makedirs_keeps[OF m] open_keeps[OF o] by blast
  have content: "fs2 p = Some (File (case files s p of Some (File c) \<Rightarrow> c | _ \<Rightarrow> []))"
  proof (cases "files s p")
    case None
    from open_result(3)[OF o] have "fs1 p \<noteq> Some Dir" by auto
    moreover from makedirs_result(3)[OF m] None have "fs1 p = None \<or> fs1 p = Some Dir" by simp
    ultimately have "fs1 p = None" by simp
    with open_content[OF o] None show ?thesis by simp
  next
    case (Some n)
    from makedirs_keeps[OF m Some] have 1: "fs1 p = Some n" .
    with open_result(3)[OF o] obtain c where "n = File c" by auto
    with open_content[OF o] 1 Some show ?thesis by simp
  qed
  from parent keeps content s' show ?thesis
    by (simp add: new_stream_def released_fields)
qed

lemma hid_below_max: "h \<in> set hs \<Longrightarrow> hid h < Suc (foldr max (map hid hs) 0)"
  by (induction hs) auto

lemma consistent_initial: "consistent hs (initial_state hs fs)"
  by (simp add: consistent_def initial_state_def opened_after_def hid_below_max)

lemma opened_after_snoc: "opened_after (es @ [e]) = apply_event e (opened_after es)"
  by (simp add: opened_after_def)

lemma opened_after_append:
  "opened_after (es @ fs) = foldl (\<lambda>cur e. apply_event e cur) (opened_after es) fs"
  by (simp add: opened_after_def)

lemma consistent_released:
  assumes "consistent hs s"
  shows "LOGGER_handlers (released s) = hs" and "open_files (released s) = []"
    and "opened_after (history (released s)) = []"
  using assms
  by (cases "LOG_HANDLER s"; cases "FILE_STREAM s";
      simp add: consistent_def released_fields removeHandler_def remove1_append
        opened_after_append)+

lemma consistent_setter:
  assumes c: "consistent hs s"
  shows "consistent hs (snd (setter v s))"
proof -
  note r = consistent_released[OF c]
  have rel: "consistent hs (released s)"
    using c r by (simp add: consistent_def released_fields)
  show ?thesis
  proof (cases v)
    case (VStr p)
    show ?thesis
    proof (cases "os_makedirs (os_path_dirname p) (files (released s))")
      case (Inl e)
      from open_log_makedirs_fails[OF Inl] rel VStr show ?thesis
        by (simp add: setter_released consistent_def opened_after_snoc)
    next
      case m: (Inr fs1)
      show ?thesis
      proof (cases "os_open_append p fs1")
        case (Inl e)
        from open_log_open_fails[OF m Inl] rel VStr show ?thesis
          by (simp add: setter_released consistent_def opened_after_append)
      next
        case (Inr fs2)
        have "new_handler p (released s) \<notin> set hs"
          using rel by (auto simp: consistent_def new_handler_def)
        moreover have "\<forall>h\<in>set hs. hid h < Suc (Suc (next_id s))"
          using c by (auto simp: consistent_def intro: less_SucI)
        ultimately show ?thesis using open_log_ok[OF m Inr] r VStr
          by (simp add: setter_released consistent_def opened_after_append addHandler_def
              released_fields)
      qed
    qed
  qed (simp_all add: setter_released rel)
qed

lemma consistent_calls:
  "consistent hs s \<Longrightarrow> consistent hs (setter_calls vs s)"
  by (induction vs arbitrary: s) (simp_all add: consistent_setter)

lemma consistent_reachable: "consistent hs (setter_calls vs (initial_state hs fs))"
  by (rule consistent_calls[OF consistent_initial])


lemma prefixes_append:
  "(\<forall>p. prefix p (h @ seg) \<longrightarrow> length (opened_after p) \<le> 1) \<longleftrightarrow>
   (\<forall>p. prefix p h \<longrightarrow> length (opened_after p) \<le> 1) \<and> bounded seg (opened_after h)"
proof (induction seg arbitrary: h)
  case Nil
  show ?case by simp
next
  case (Cons e es)
  have "(\<forall>p. prefix p (h @ e # es) \<longrightarrow> length (opened_after p) \<le> 1) \<longleftrightarrow>
        (\<forall>p. prefix p ((h @ [e]) @ es) \<longrightarrow> length (opened_after p) \<le> 1)"
    by simp
  also have "\<dots> \<longleftrightarrow> (\<forall>p. prefix p (h @ [e]) \<longrightarrow> length (opened_after p) \<le> 1) \<and>
      bounded es (opened_after (h @ [e]))"
    by (rule Cons.IH)
  also have "(\<forall>p. prefix p (h @ [e]) \<longrightarrow> length (opened_after p) \<le> 1) \<longleftrightarrow>
      (\<forall>p. prefix p h \<longrightarrow> length (opened_after p) \<le> 1) \<and> length (opened_after (h @ [e])) \<le> 1"
    by (auto simp: prefix_snoc)
  finally show ?case by (auto simp: opened_after_snoc)
qed

lemma never_two_released:
  assumes c: "consistent hs s"
    and n: "\<forall>p. prefix p (history s) \<longrightarrow> length (opened_after p) \<le> 1"
  shows "\<forall>p. prefix p (history (released s)) \<longrightarrow> length (opened_after p) \<le> 1"
proof -
  have o: "opened_after (history s) = opt_list (FILE_STREAM s)"
    using c by (simp add: consistent_def)
  have "bounded (map RemoveHandler (opt_list (LOG_HANDLER s)) @
                 map CloseStream (opt_list (FILE_STREAM s))) (opt_list (FILE_STREAM s))"
    by (cases "LOG_HANDLER s"; cases "FILE_STREAM s"; simp)
  with n o show ?thesis
    unfolding released_fields(5) prefixes_append by simp
qed

lemma never_two_setter:
  assumes c: "consistent hs s"
    and n: "\<forall>p. prefix p (history s) \<longrightarrow> length (opened_after p) \<le> 1"
  shows "\<forall>p. prefix p (history (snd (setter v s))) \<longrightarrow> length (opened_after p) \<le> 1"
proof -
  note r = never_two_released[OF c n]
  note e = consistent_released(3)[OF c]
  show ?thesis
  proof (cases v)
    case (VStr p)
    show ?thesis
    proof (cases "os_makedirs (os_path_dirname p) (files (released s))")
      case (Inl e)
      have h: "history (snd (setter v s)) =
          history (released s) @ [Log DEBUG ''opening log file stream: %s'' [VStr p]]"
        using open_log_makedirs_fails[OF Inl] VStr by (simp add: setter_released)
      show ?thesis unfolding h prefixes_append using r e by simp
    next
      case m: (Inr fs1)
      show ?thesis
      proof (cases "os_open_append p fs1")
        case (Inl e)
        have h: "history (snd (setter v s)) = history (released s) @
            [Log DEBUG ''opening log file stream: %s'' [VStr p], MakeDirs (os_path_dirname p)]"
          using open_log_open_fails[OF m Inl] VStr by (simp add: setter_released)
        show ?thesis unfolding h prefixes_append using r e by simp
      next
        case (Inr fs2)
        have h: "history (snd (setter v s)) = history (released s) @
            [Log DEBUG ''opening log file stream: %s'' [VStr p], MakeDirs (os_path_dirname p),
             OpenStream (new_stream p (released s)), AddHandler (new_handler p (released s))]"
          using open_log_ok[OF m Inr] VStr by (simp add: setter_released)
        show ?thesis unfolding h prefixes_append using r e by simp
      qed
    qed
  qed (insert r, simp_all add: setter_released)
qed

lemma never_two_calls:
  "consistent hs s \<Longrightarrow> \<forall>p. prefix p (history s) \<longrightarrow> length (opened_after p) \<le> 1 \<Longrightarrow>
   \<forall>p. prefix p (history (setter_calls vs s)) \<longrightarrow> length (opened_after p) \<le> 1"
proof (induction vs arbitrary: s)
  case Nil
  then show ?case by simp
next
  case (Cons v vs)
  from Cons.IH[OF consistent_setter[OF Cons.prems(1)] never_two_setter[OF Cons.prems]]
  show ?case by simp
qed

lemma never_two_reachable:
  "\<forall>p. prefix p (history (setter_calls vs (initial_state hs fs))) \<longrightarrow> length (opened_after p) \<le> 1"
  by (rule never_two_calls[OF consistent_initial]) (simp add: initial_state_def opened_after_def)

lemma setter_history:
  "\<exists>acq. history (snd (setter v s)) = history (released s) @ acq \<and> (\<forall>e\<in>set acq. \<not> is_release e)"
proof (cases v)
  case (VStr p)
  show ?thesis
  proof (cases "os_makedirs (os_path_dirname p) (files (released s))")
    case (Inl e)
    from open_log_makedirs_fails[OF Inl] VStr show ?thesis by (simp add: setter_released)
  next
    case m: (Inr fs1)
    show ?thesis
    proof (cases "os_open_append p fs1")
      case (Inl e)
      from open_log_open_fails[OF m Inl] VStr show ?thesis by (simp add: setter_released)
    next
      case (Inr fs2)
      from open_log_ok[OF m Inr] VStr show ?thesis by (simp add: setter_released)
    qed
  qed
qed (simp_all add: setter_released)

text \<open>
  Claim C3. In every state the module can reach from its initial state by calls of the
  setter, a call first removes the handler and closes the stream of the previous
  call, and only then logs, creates the directory, opens the new stream and installs
  the new handler; at the point between the two no handler of the module is attached
  and no stream is open; and after every prefix of the history of effects at most one
  stream opened by the setter is open.
\<close>

theorem setter_releases_before_acquiring:
  assumes "s = setter_calls vs (initial_state hs fs)"
  shows "(\<exists>acq. history (snd (setter v s)) =
            history s @ map RemoveHandler (opt_list (LOG_HANDLER s)) @
              map CloseStream (opt_list (FILE_STREAM s)) @ acq \<and>
            (\<forall>e\<in>set acq. \<not> is_release e)) \<and>
         LOGGER_handlers (close_stream (drop_handler s)) = hs \<and>
         open_files (close_stream (drop_handler s)) = [] \<and>
         (\<forall>p. prefix p (history (snd (setter v s))) \<longrightarrow> length (opened_after p) \<le> 1)"
proof -
  have c: "consistent hs s" unfolding assms by (rule consistent_reachable)
  have n: "\<forall>p. prefix p (history s) \<longrightarrow> length (opened_after p) \<le> 1"
    unfolding assms by (rule never_two_reachable)
  from setter_history[of v s] have 1: "\<exists>acq. history (snd (setter v s)) =
            history s @ map RemoveHandler (opt_list (LOG_HANDLER s)) @
              map CloseStream (opt_list (FILE_STREAM s)) @ acq \<and>
            (\<forall>e\<in>set acq. \<not> is_release e)"
    by (simp add: released_fields)
  from consistent_released(1,2)[OF c] have 2:
    "LOGGER_handlers (close_stream (drop_handler s)) = hs"
    "open_files (close_stream (drop_handler s)) = []"
    by (simp_all add: released_def)
  from 1 2 never_two_setter[OF c n] show ?thesis by blast
qed



lemmas setter_eval =
  setter_def drop_handler_def close_stream_def open_log_def initial_state_def
  os_makedirs_def os_open_append_def os_path_dirname_def rstrip_sep_def all_sep_def sep_def
  chain_def ancestors_def is_file_def addHandler_def removeHandler_def Let_def

text \<open>
  Claim C9, as amended. When the call for a string path raises no error, the
  directory of the path exists afterwards, every directory and every file that
  existed before is kept with its content, the file of the path holds the content it
  had before (it is empty when it did not exist), and the stream of the module is a
  new stream on that path in append mode, which is open.
\<close>

theorem setter_opens_for_append:
  assumes "fst (setter (VStr p) s) = None"
  shows "files (snd (setter (VStr p) s)) (os_path_dirname p) = Some Dir \<and>
         (\<forall>q n. files s q = Some n \<longrightarrow> files (snd (setter (VStr p) s)) q = Some n) \<and>
         files (snd (setter (VStr p) s)) p =
           Some (File (case files s p of Some (File c) \<Rightarrow> c | _ \<Rightarrow> [])) \<and>
         FILE_STREAM (snd (setter (VStr p) s)) = Some \<lparr>sid = next_id s, spath = p, smode = ''a''\<rparr> \<and>
         \<lparr>sid = next_id s, spath = p, smode = ''a''\<rparr> \<in> set (open_files (snd (setter (VStr p) s)))"
proof -
  from assms have "setter (VStr p) s = (None, snd (setter (VStr p) s))"
    by (simp add: prod_eq_iff)
  then show ?thesis by (rule setter_ok_effect)
qed

text \<open>A log file with content, in an existing directory; and a directory that is missing.\<close>

theorem setter_opens_for_append_witness:
  "fst (setter (VStr ''out/log'')
          (initial_state [] [''out'' \<mapsto> Dir, ''out/log'' \<mapsto> File ''old''])) = None \<and>
   files (snd (setter (VStr ''out/log'')
          (initial_state [] [''out'' \<mapsto> Dir, ''out/log'' \<mapsto> File ''old'']))) ''out/log'' =
     Some (File ''old'') \<and>
   files (snd (setter (VStr ''new/log'') (initial_state [] Map.empty))) ''new'' = Some Dir"
proof -
  have 1: "fst (setter (VStr ''out/log'')
          (initial_state [] [''out'' \<mapsto> Dir, ''out/log'' \<mapsto> File ''old''])) = None"
    by (simp add: setter_eval)
  have 2: "fst (setter (VStr ''new/log'') (initial_state [] Map.empty)) = None"
    by (simp add: setter_eval)
  have 3: "os_path_dirname ''new/log'' = ''new''"
    by (simp add: os_path_dirname_def rstrip_sep_def all_sep_def sep_def)
  from setter_opens_for_append[OF 1] setter_opens_for_append[OF 2] 1 3 show ?thesis
    by (simp add: initial_state_def)
qed

text \<open>
  Claim C9 as stated fails where the operating system refuses the path: when the
  path names a directory, \<open>open\<close> raises and no stream is opened.
\<close>

theorem setter_on_directory_counterexample:
  "fst (setter (VStr ''out/log'')
          (initial_state [] [''out'' \<mapsto> Dir, ''out/log'' \<mapsto> Dir])) = Some IsADirectoryError \<and>
   FILE_STREAM (snd (setter (VStr ''out/log'')
          (initial_state [] [''out'' \<mapsto> Dir, ''out/log'' \<mapsto> Dir]))) = None \<and>
   open_files (snd (setter (VStr ''out/log'')
          (initial_state [] [''out'' \<mapsto> Dir, ''out/log'' \<mapsto> Dir]))) = []"
  by (simp add: setter_eval)

text \<open>
  A path without a directory part: \<open>os.path.dirname\<close> is empty and \<open>os.makedirs\<close> raises
  before anything is opened.
\<close>

lemma setter_bare_filename_raises:
  "fst (setter (VStr ''log'') (initial_state [] Map.empty)) = Some FileNotFoundError"
  by (simp add: setter_eval)



text \<open>A call with one path after a call with another.\<close>

theorem setter_releases_before_acquiring_witness:
  "length (opened_after (history (snd (setter (VStr ''out/b'')
      (setter_calls [VStr ''out/a''] (initial_state [] Map.empty)))))) \<le> 1 \<and>
   LOGGER_handlers (close_stream (drop_handler
      (setter_calls [VStr ''out/a''] (initial_state [] Map.empty)))) = []"
  using setter_releases_before_acquiring
    [OF refl, of "VStr ''out/b''" "[VStr ''out/a'']" "[]" Map.empty]
  by blast


section \<open>Properties of sessions and of the \<open>run\<close> command\<close>

lemma Session_enter_stack:
  "SESSION_STACK (snd (Session_enter reg c g)) =
     (if fst (Session_enter reg c g) = None then c # SESSION_STACK g else SESSION_STACK g)"
  by (simp add: Session_enter_def split: prod.splits option.splits)




lemma enter_contexts_step:
  "enter_contexts enter (c # cs) registered g =
     (if fst (enter c g) = None then enter_contexts enter cs (c # registered) (snd (enter c g))
      else (fst (enter c g), registered, snd (enter c g)))"
  by (cases "enter c g") (auto split: option.splits)

lemma enter_contexts_stack:
  "\<exists>entered. prefix entered cs \<and>
     fst (snd (enter_contexts (Session_enter reg) cs registered g)) = rev entered @ registered \<and>
     SESSION_STACK (snd (snd (enter_contexts (Session_enter reg) cs registered g))) =
       rev entered @ SESSION_STACK g \<and>
     (fst (enter_contexts (Session_enter reg) cs registered g) = None \<longrightarrow> entered = cs)"
proof (induction cs arbitrary: registered g)
  case Nil
  show ?case by simp
next
  case (Cons c cs)
  let ?g' = "snd (Session_enter reg c g)"
  show ?case
  proof (cases "fst (Session_enter reg c g) = None")
    case True
    then have st: "SESSION_STACK ?g' = c # SESSION_STACK g"
      by (simp add: Session_enter_stack)
    have step: "enter_contexts (Session_enter reg) (c # cs) registered g =
        enter_contexts (Session_enter reg) cs (c # registered) ?g'"
      using True by (subst enter_contexts_step) simp
    from Cons.IH[of "c # registered" ?g'] obtain entered where
      p: "prefix entered cs"
      and r: "fst (snd (enter_contexts (Session_enter reg) cs (c # registered) ?g')) =
         rev entered @ c # registered"
      and k: "SESSION_STACK (snd (snd (enter_contexts (Session_enter reg) cs (c # registered) ?g'))) =
         rev entered @ SESSION_STACK ?g'"
      and n: "fst (enter_contexts (Session_enter reg) cs (c # registered) ?g') = None \<longrightarrow> entered = cs"
      by (elim exE conjE)
    show ?thesis
    proof (intro exI[of _ "c # entered"] conjI)
      show "prefix (c # entered) (c # cs)" using p by simp
      show "fst (snd (enter_contexts (Session_enter reg) (c # cs) registered g)) =
          rev (c # entered) @ registered"
        unfolding step r by simp
      show "SESSION_STACK (snd (snd (enter_contexts (Session_enter reg) (c # cs) registered g))) =
          rev (c # entered) @ SESSION_STACK g"
        unfolding step k st by simp
      show "fst (enter_contexts (Session_enter reg) (c # cs) registered g) = None \<longrightarrow>
          c # entered = c # cs"
        unfolding step using n by simp
    qed
  next
    case nf: False
    then have st: "SESSION_STACK ?g' = SESSION_STACK g"
      by (simp add: Session_enter_stack)
    have step: "enter_contexts (Session_enter reg) (c # cs) registered g =
        (fst (Session_enter reg c g), registered, ?g')"
      by (subst enter_contexts_step) (simp only: nf if_False)
    show ?thesis
    proof (intro exI[of _ "[]"] conjI)
      show "prefix [] (c # cs)" by simp
      show "fst (snd (enter_contexts (Session_enter reg) (c # cs) registered g)) =
          rev [] @ registered"
        unfolding step by simp
      show "SESSION_STACK (snd (snd (enter_contexts (Session_enter reg) (c # cs) registered g))) =
          rev [] @ SESSION_STACK g"
        unfolding step using st by simp
      show "fst (enter_contexts (Session_enter reg) (c # cs) registered g) = None \<longrightarrow> [] = c # cs"
        unfolding step using nf by simp
    qed
  qed
qed











lemma Session_keys_registered:
  assumes "Session reg kwargs = Inr s"
  shows "overrides s = kwargs" and "\<forall>kv\<in>set kwargs. map_of reg (fst kv) \<noteq> None"
  using assms by (auto simp: Session_def find_None_iff split: option.splits)

lemma effective_top:
  assumes "map_of (overrides s) name = Some v" and "map_of reg name \<noteq> None"
  shows "effective reg (s # stack) name = Inr v"
  using assms by (auto simp: effective_def)

text \<open>
  Claim C4. When a session file is given and both sessions are entered, the loaded
  session lies below the session constructed for this run, which pins \<open>save_path\<close> and
  \<open>log_file\<close>; the effective value of every item the new session overrides is the
  value of the new session, whatever the loaded session says.
\<close>

theorem run_fresh_session_wins:
  assumes "session_stack env reg save_path (Some f) = Inr contexts"
    and "fst (enter_contexts (Session_enter reg) contexts [] g) = None"
  shows "\<exists>loaded fresh. load_session env f = Inr loaded \<and> contexts = [loaded, fresh] \<and>
     overrides fresh =
       [(''save_path'', VStr save_path),
        (''log_file'', VStr (first_unique_filename env (os_path_join save_path ''log'')))] \<and>
     SESSION_STACK (snd (snd (enter_contexts (Session_enter reg) contexts [] g))) =
       fresh # loaded # SESSION_STACK g \<and>
     (\<forall>name v. map_of (overrides fresh) name = Some v \<longrightarrow>
        effective reg (fresh # loaded # SESSION_STACK g) name = Inr v)"
proof -
  let ?kwargs = "[(''save_path'', VStr save_path),
        (''log_file'', VStr (first_unique_filename env (os_path_join save_path ''log'')))]"
  from assms(1) obtain loaded fresh where l: "load_session env f = Inr loaded"
    and s: "Session reg ?kwargs = Inr fresh" and c: "contexts = [loaded, fresh]"
    by (auto simp: session_stack_def split: sum.splits)
  note k = Session_keys_registered[OF s]
  from enter_contexts_stack[of contexts reg "[]" g] assms(2)
  have st: "SESSION_STACK (snd (snd (enter_contexts (Session_enter reg) contexts [] g))) =
      rev contexts @ SESSION_STACK g"
    by auto
  have eff: "\<forall>name v. map_of (overrides fresh) name = Some v \<longrightarrow>
        effective reg (fresh # loaded # SESSION_STACK g) name = Inr v"
  proof (intro allI impI)
    fix name v assume m: "map_of (overrides fresh) name = Some v"
    then have "(name, v) \<in> set ?kwargs" unfolding k(1) by (rule map_of_SomeD)
    with k(2) have "map_of reg name \<noteq> None" by fastforce
    with m show "effective reg (fresh # loaded # SESSION_STACK g) name = Inr v"
      by (rule effective_top)
  qed
  from l c k(1) st eff show ?thesis by simp
qed




text \<open>
  Claim C10. When the version recorded in the configuration differs from the version
  of the package, the check raises nothing, passes one message of level \<open>WARNING\<close> to
  \<open>log\<close> (with the package, the recorded version and the current version), sets the
  recorded version to the current one and leaves every other entry, the stack and the
  state of the setters as they are; the body of \<open>run\<close> goes on to the training run with
  the updated configuration.
\<close>

theorem run_version_mismatch_warns:
  assumes "map_of config ''xfuse'' = Some (VDict xfuse)"
    and "map_of xfuse ''version'' = Some v"
    and "v \<noteq> VStr (version env)"
  shows "\<exists>config' g' xfuse'. check_version env config g = Inr (config', g') \<and>
     messages g' = messages g @
       [(WARNING, ''Config was created using %s version %s but this is version %s'',
         [VStr (package env), v, VStr (version env)])] \<and>
     map_of config' ''xfuse'' = Some (VDict xfuse') \<and>
     map_of xfuse' = (map_of xfuse)(''version'' \<mapsto> VStr (version env)) \<and>
     (\<forall>k. k \<noteq> ''xfuse'' \<longrightarrow> map_of config' k = map_of config k) \<and>
     SESSION_STACK g' = SESSION_STACK g \<and> world g' = world g \<and>
     (\<forall>project_file parsed.
        tomlkit_loads env project_file = Inr parsed \<longrightarrow> merge_config env parsed = Inr config \<longrightarrow>
        run_body env project_file g = training env config' g')"
proof -
  let ?x = "AList.update ''version'' (VStr (version env)) xfuse"
  let ?c = "AList.update ''xfuse'' (VDict ?x) config"
  let ?g = "g\<lparr>messages := messages g @
       [(WARNING, ''Config was created using %s version %s but this is version %s'',
         [VStr (package env), v, VStr (version env)])]\<rparr>"
  have c: "check_version env config g = Inr (?c, ?g)"
    using assms by (simp add: check_version_def)
  have "\<forall>project_file parsed.
        tomlkit_loads env project_file = Inr parsed \<longrightarrow> merge_config env parsed = Inr config \<longrightarrow>
        run_body env project_file g = training env ?c ?g"
    using c by (simp add: run_body_def)
  with c show ?thesis
    by (intro exI[of _ ?c] exI[of _ ?g] exI[of _ ?x]) (simp add: update_conv')
qed


lemmas example_eval =
  example_env_def example_registry_def example_state_def example_config_def example_codec_def
  log_file_item_def


lemma example_session_stack:
  "session_stack example_env example_registry ''out'' (Some ''session.toml'') =
     Inr [\<lparr>overrides = [(''save_path'', VStr ''old'')]\<rparr>,
          \<lparr>overrides = [(''save_path'', VStr ''out''), (''log_file'', VStr ''out/log'')]\<rparr>]"
  by (simp add: session_stack_def Session_def os_path_join_def sep_def example_eval)

lemma example_enter:
  "fst (enter_contexts (Session_enter example_registry)
     [\<lparr>overrides = [(''save_path'', VStr ''old'')]\<rparr>,
      \<lparr>overrides = [(''save_path'', VStr ''out''), (''log_file'', VStr ''out/log'')]\<rparr>]
     [] example_state) = None"
  by (simp add: Session_enter_def example_eval setter_eval)



text \<open>The loaded session records \<open>old\<close> as \<open>save_path\<close>; the run is started with \<open>out\<close>.\<close>

theorem run_fresh_session_wins_witness:
  "effective example_registry
     (\<lparr>overrides = [(''save_path'', VStr ''out''), (''log_file'', VStr ''out/log'')]\<rparr> #
      \<lparr>overrides = [(''save_path'', VStr ''old'')]\<rparr> # SESSION_STACK example_state)
     ''save_path'' = Inr (VStr ''out'')"
proof -
  from run_fresh_session_wins[OF example_session_stack example_enter]
  obtain loaded fresh where
    c: "[\<lparr>overrides = [(''save_path'', VStr ''old'')]\<rparr>,
         \<lparr>overrides = [(''save_path'', VStr ''out''), (''log_file'', VStr ''out/log'')]\<rparr>] =
        [loaded, fresh]"
    and e: "\<forall>name v. map_of (overrides fresh) name = Some v \<longrightarrow>
        effective example_registry (fresh # loaded # SESSION_STACK example_state) name = Inr v"
    by (elim exE conjE)
  from c have f: "fresh = \<lparr>overrides = [(''save_path'', VStr ''out''), (''log_file'', VStr ''out/log'')]\<rparr>"
    and l: "loaded = \<lparr>overrides = [(''save_path'', VStr ''old'')]\<rparr>"
    by simp_all
  have "map_of (overrides fresh) ''save_path'' = Some (VStr ''out'')" by (simp add: f)
  with e have "effective example_registry (fresh # loaded # SESSION_STACK example_state)
      ''save_path'' = Inr (VStr ''out'')"
    by blast
  then show ?thesis unfolding f l .
qed




text \<open>A configuration made with version 0.1, run with version 0.2.\<close>

theorem run_version_mismatch_warns_witness:
  "\<exists>config' g'. check_version example_env example_config example_state = Inr (config', g') \<and>
     messages g' =
       [(WARNING, ''Config was created using %s version %s but this is version %s'',
         [VStr ''hssl'', VStr ''0.1'', VStr ''0.2''])]"
proof -
  have 1: "map_of example_config ''xfuse'' =
      Some (VDict [(''network_depth'', VInt 6), (''version'', VStr ''0.1'')])"
    by (simp add: example_config_def)
  have 2: "map_of [(''network_depth'', VInt 6), (''version'', VStr ''0.1'')] ''version'' =
      Some (VStr ''0.1'')"
    by simp
  have 3: "VStr ''0.1'' \<noteq> VStr (version example_env)" by (simp add: example_env_def)
  from run_version_mismatch_warns[OF 1 2 3, of example_state] show ?thesis
    by (auto simp: example_env_def example_state_def)
qed

end
